theory Spec2Isabelle
  imports Complex_Main
begin

section \<open>Data model of \<open>nitsmdevtools/scope.py\<close>\<close>

text \<open>
  The driver session (\<open>niscope.Session\<close>) is an external object.  A session is
  modelled by an opaque handle together with its read-only resource descriptor;
  equality of two \<open>Session\<close> values is object identity of the driver sessions.
  Every call that the module issues on a session is recorded, in program order, in
  a call log: the log is the state that the operation layer threads through its
  loops.  Driver calls are taken to return normally; an exception of the driver is
  outside this module.  Strings are lists of characters with code below 256.
\<close>

record Session =
  handle :: nat
  io_resource_descriptor :: string

record SSCScope =
  session :: Session
  channels :: string
  channel_list :: string

datatype PinType = DUT_Pin | System_Pin | Pin_Group | Not_Determined

fun PinType_value :: "PinType \<Rightarrow> int" where
  "PinType_value DUT_Pin = 0"
| "PinType_value System_Pin = 1"
| "PinType_value Pin_Group = 2"
| "PinType_value Not_Determined = 3"

record ExpandedPinInformation =
  Pin :: string
  Type :: PinType
  Index :: int

record PinsCluster =
  Pins :: "string list"

text \<open>
  \<open>PinQueryContext\<close>: the attribute \<open>_pins\<close> and the triple returned by
  \<open>get_channel_group_and_channel_index(pins)\<close> for those pins.
\<close>

record PinQueryContext =
  pqc_pins :: "string list"
  number_of_pins_per_channel :: "int list"
  channel_group_indices :: "int list list"
  channel_indices :: "int list list"

text \<open>
  \<open>SemiconductorModuleContext\<close>: the answers of \<open>get_pin_names("", "")\<close>, of
  \<open>site_numbers\<close> and of \<open>get_pins_in_pin_group\<close>.
\<close>

record SemiconductorModuleContext =
  dut_pins :: "string list"
  system_pins :: "string list"
  ctx_site_numbers :: "int list"
  get_pins_in_pin_group :: "string list \<Rightarrow> string list"

record TSMScope =
  pin_query_context :: PinQueryContext
  site_numbers :: "int list"
  ssc :: "SSCScope list"

datatype error = IndexError | ZeroDivisionError | ValueError string

datatype TriggerSlope = NEGATIVE | POSITIVE

datatype ClearableMeasurement = ALL_MEASUREMENTS

text \<open>The driver calls of the operations modelled here; \<open>'m\<close> is
  \<open>niscope.ScalarMeasurement\<close>.  Calls made through \<open>session.channels[...]\<close>
  carry the channel string.\<close>

datatype 'm driver_call =
    Abort
  | Initiate
  | Commit
  | Configure_trigger_immediate
  | Set_exported_start_trigger_output_terminal string
  | Configure_trigger_digital string TriggerSlope real real
  | Clear_waveform_measurement_stats string ClearableMeasurement
  | Fetch_measurement_stats string 'm

type_synonym 'm call_log = "(Session \<times> 'm driver_call) list"

definition driver :: "Session \<Rightarrow> 'm driver_call \<Rightarrow> 'm call_log \<Rightarrow> 'm call_log" where
  "driver s c lg = lg @ [(s, c)]"

section \<open>Strings\<close>

text \<open>
  \<open>\s\<close> of Python's \<open>re\<close> on \<open>str\<close> patterns: the characters for which
  \<open>str.isspace\<close> holds, here those with code below 256.
\<close>

definition is_space :: "char \<Rightarrow> bool" where
  "is_space c =
     (let n = (of_char c :: nat)
      in (9 \<le> n \<and> n \<le> 13) \<or> (28 \<le> n \<and> n \<le> 31) \<or> n = 32 \<or> n = 133 \<or> n = 160)"

text \<open>
  \<open>re.split(r"\s*,\s*", s)\<close>.  The scan goes left to right; at a position where the
  rest of the string is a (possibly empty) run of white space followed by a comma,
  the pattern matches that run, the comma and all white space after it, which
  closes the current piece; elsewhere the character joins the current piece.
  \<open>acc\<close> is the current piece, reversed.
\<close>

function split_from :: "string \<Rightarrow> string \<Rightarrow> string list" where
  "split_from acc [] = [rev acc]"
| "split_from acc (c # cs) =
     (case dropWhile is_space (c # cs) of
        [] \<Rightarrow> split_from (c # acc) cs
      | d # r \<Rightarrow>
          if d = CHR '','' then rev acc # split_from [] (dropWhile is_space r)
          else split_from (c # acc) cs)"
  by pat_completeness auto
termination
proof (relation "measure (\<lambda>(acc, s). length s)")
  fix acc :: string and c cs d r
  assume d: "dropWhile is_space (c # cs) = d # r"
  have "length (dropWhile is_space r) \<le> length r"
    by (rule length_dropWhile_le)
  moreover have "length (d # r) \<le> length (c # cs)"
    using length_dropWhile_le [of is_space "c # cs"] d by simp
  ultimately show "(([], dropWhile is_space r), (acc, c # cs)) \<in> measure (\<lambda>(acc, s). length s)"
    by simp
qed simp_all

definition re_split :: "string \<Rightarrow> string list" where
  "re_split s = split_from [] s"

text \<open>\<open>",".join(xs)\<close>\<close>

fun join :: "string list \<Rightarrow> string" where
  "join [] = []"
| "join [x] = x"
| "join (x # y # ys) = x @ CHR '','' # join (y # ys)"

text \<open>\<open>"{}".format(i)\<close> for an \<open>int\<close>: its decimal numeral.\<close>

fun digits :: "nat \<Rightarrow> string" where
  "digits n =
     (if n < 10 then [''0123456789'' ! n]
      else digits (n div 10) @ [''0123456789'' ! (n mod 10)])"

definition format_int :: "int \<Rightarrow> string" where
  "format_int i = (if i < 0 then CHR ''-'' # digits (nat (- i)) else digits (nat i))"

section \<open>Scope sub routines\<close>

definition expand_ssc_to_ssc_per_channel :: "SSCScope list \<Rightarrow> SSCScope list" where
  "expand_ssc_to_ssc_per_channel sscs =
     [\<lparr>session = session scope_ssc, channels = channel, channel_list = chl\<rparr>.
        scope_ssc \<leftarrow> sscs,
        (channel, chl) \<leftarrow> zip (re_split (channels scope_ssc)) (re_split (channel_list scope_ssc))]"

section \<open>Pin classification\<close>

text \<open>\<open>xs.index(x)\<close>: the first position of \<open>x\<close>, \<open>None\<close> where Python raises
  \<open>ValueError\<close>.\<close>

fun list_index :: "'a list \<Rightarrow> 'a \<Rightarrow> nat option" where
  "list_index [] x = None"
| "list_index (y # ys) x = (if y = x then Some 0 else map_option Suc (list_index ys x))"

text \<open>
  \<open>_get_all_pin_names\<close>: the local \<open>pin_names\<close> is empty when it is tested, so the
  roster is always read from the context.
\<close>

definition get_all_pin_names ::
  "SemiconductorModuleContext \<Rightarrow> bool \<Rightarrow> string list \<times> PinType list" where
  "get_all_pin_names tsm_context reload_cache =
     (let pin_names = []; pin_types = [] in
      if length pin_names = 0 \<or> reload_cache then
        (let dut_pins_type = replicate (length (dut_pins tsm_context)) DUT_Pin;
             system_pins_type = replicate (length (system_pins tsm_context)) System_Pin
         in (dut_pins tsm_context @ system_pins tsm_context, dut_pins_type @ system_pins_type))
      else (pin_names, pin_types))"

text \<open>
  The loop of \<open>_identify_pin_types\<close>; its state is \<open>filtered_pin_types\<close> and
  \<open>pin_group_found\<close>.  The \<open>try\<close> branch assigns \<open>pin_group_found = False\<close>, the
  \<open>except ValueError\<close> branch assigns \<open>True\<close>.  \<open>pin_names\<close> and \<open>pin_types\<close>
  have one length, so \<open>pin_types[index]\<close> is in range.
\<close>

fun identify_loop ::
  "string list \<Rightarrow> PinType list \<Rightarrow> string list \<Rightarrow> PinType list \<times> bool \<Rightarrow> PinType list \<times> bool" where
  "identify_loop pin_names pin_types [] st = st"
| "identify_loop pin_names pin_types (pin # rest) (filtered_pin_types, pin_group_found) =
     (case list_index pin_names pin of
        Some index \<Rightarrow>
          identify_loop pin_names pin_types rest (filtered_pin_types @ [pin_types ! index], False)
      | None \<Rightarrow>
          identify_loop pin_names pin_types rest (filtered_pin_types @ [Pin_Group], True))"

definition identify_pin_types ::
  "SemiconductorModuleContext \<Rightarrow> string list \<Rightarrow> PinType list \<times> bool" where
  "identify_pin_types tsm_context pins_or_pins_group =
     (case get_all_pin_names tsm_context False of
        (pin_names, pin_types) \<Rightarrow>
          identify_loop pin_names pin_types pins_or_pins_group ([], False))"

definition check_for_pin_group ::
  "SemiconductorModuleContext \<Rightarrow> string list \<Rightarrow> PinType list \<times> string list" where
  "check_for_pin_group tsm_context pins_or_pins_group =
     (case identify_pin_types tsm_context pins_or_pins_group of
        (pins_types, pin_group_found) \<Rightarrow>
          if pin_group_found then
            (let pins = get_pins_in_pin_group tsm_context pins_or_pins_group
             in (fst (identify_pin_types tsm_context pins), pins))
          else (pins_types, pins_or_pins_group))"

section \<open>Channel-list resolver\<close>

text \<open>
  Python list indexing with an \<open>int\<close>: a negative index counts from the end, an
  index outside \<open>-n .. n-1\<close> raises \<open>IndexError\<close>.
\<close>

definition py_index :: "nat \<Rightarrow> int \<Rightarrow> nat option" where
  "py_index n i =
     (if 0 \<le> i \<and> i < int n then Some (nat i)
      else if - int n \<le> i \<and> i < 0 then Some (nat (i + int n))
      else None)"

text \<open>\<open>pins_array_for_session_input[g].Pins[c] = v\<close>\<close>

definition store_pin ::
  "PinsCluster list \<Rightarrow> int \<Rightarrow> int \<Rightarrow> string \<Rightarrow> error + PinsCluster list" where
  "store_pin arr g c v =
     (case py_index (length arr) g of
        None \<Rightarrow> Inl IndexError
      | Some gi \<Rightarrow>
          (case py_index (length (Pins (arr ! gi))) c of
             None \<Rightarrow> Inl IndexError
           | Some ci \<Rightarrow> Inr (arr[gi := (arr ! gi)\<lparr>Pins := (Pins (arr ! gi))[ci := v]\<rparr>])))"

text \<open>The inner loop (lines 299-319), over the four zipped sequences of one site.\<close>

fun per_pin_loop ::
  "int \<Rightarrow> (int \<times> int \<times> string \<times> PinType) list \<Rightarrow> PinsCluster list
     \<Rightarrow> error + PinsCluster list" where
  "per_pin_loop site_number [] arr = Inr arr"
| "per_pin_loop site_number ((g, c, pin, pin_type) # rest) arr =
     (case (if PinType_value pin_type = 1 then store_pin arr g c pin
            else store_pin arr g c (''Site'' @ format_int site_number @ ''/'' @ pin)) of
        Inl e \<Rightarrow> Inl e
      | Inr arr' \<Rightarrow> per_pin_loop site_number rest arr')"

text \<open>The outer loop (lines 290-298), over the three zipped sequences.\<close>

fun per_site_loop ::
  "(int list \<times> int list \<times> int) list \<Rightarrow> string list \<Rightarrow> PinType list \<Rightarrow> PinsCluster list
     \<Rightarrow> error + PinsCluster list" where
  "per_site_loop [] pin_names_return pin_types_return arr = Inr arr"
| "per_site_loop ((gs, cs, site_number) # rest) pin_names_return pin_types_return arr =
     (case per_pin_loop site_number (zip gs (zip cs (zip pin_names_return pin_types_return))) arr of
        Inl e \<Rightarrow> Inl e
      | Inr arr' \<Rightarrow> per_site_loop rest pin_names_return pin_types_return arr')"

text \<open>
  \<open>numpy.transpose\<close> of a nested sequence: the matrix transpose when all rows have
  one length; rows of different lengths do not make a two-dimensional array
  (\<open>ValueError\<close>).
\<close>

definition numpy_transpose :: "'a list list \<Rightarrow> error + 'a list list" where
  "numpy_transpose m =
     (case m of
        [] \<Rightarrow> Inr []
      | r # rs \<Rightarrow>
          if list_all (\<lambda>x. length x = length r) rs
          then Inr (map (\<lambda>j. map (\<lambda>row. row ! j) m) [0..<length r])
          else Inl (ValueError ''inhomogeneous shape''))"

definition pin_query_context_to_channel_list ::
  "ExpandedPinInformation list \<Rightarrow> int list \<Rightarrow> PinQueryContext \<Rightarrow> SemiconductorModuleContext
     \<Rightarrow> error + (int list \<times> string list)" where
  "pin_query_context_to_channel_list expanded_pins_information site_nums pqc tsm_context =
     (let pins = pqc_pins pqc;
          pins_array_for_session_input =
            map (\<lambda>number_of_pins. \<lparr>Pins = replicate (nat number_of_pins) []\<rparr>)
              (number_of_pins_per_channel pqc);
          site_numbers_out =
            (if length site_nums = 0 then ctx_site_numbers tsm_context else site_nums);
          (pin_types_return, pin_names_return) =
            (if length expanded_pins_information = 0 then check_for_pin_group tsm_context pins
             else (map Type expanded_pins_information, map Pin expanded_pins_information))
      in case numpy_transpose (channel_group_indices pqc) of
           Inl e \<Rightarrow> Inl e
         | Inr gt \<Rightarrow>
             (case numpy_transpose (channel_indices pqc) of
                Inl e \<Rightarrow> Inl e
              | Inr ct \<Rightarrow>
                  (case per_site_loop (zip gt (zip ct site_numbers_out))
                          pin_names_return pin_types_return pins_array_for_session_input of
                     Inl e \<Rightarrow> Inl e
                   | Inr arr \<Rightarrow> Inr (site_numbers_out, map (\<lambda>a. join (Pins a)) arr))))"

section \<open>Array broadcasting\<close>

text \<open>
  \<open>_expand_to_requested_array_size\<close>.  \<open>isinstance(data_in, tuple)\<close> separates the
  two shapes of the input.  The loop reads \<open>data[i]\<close> first (\<open>IndexError\<close> when
  \<open>i\<close> is the length) and then tests \<open>i == len(data)\<close>.
\<close>

datatype 'a data_in = Tuple "'a list" | Scalar 'a

fun cycle_loop :: "'a list \<Rightarrow> nat \<Rightarrow> nat \<Rightarrow> 'a list \<Rightarrow> error + 'a list" where
  "cycle_loop data 0 i data_out = Inr data_out"
| "cycle_loop data (Suc k) i data_out =
     (if i < length data
      then cycle_loop data k (if i = length data then 0 else i + 1) (data_out @ [data ! i])
      else Inl IndexError)"

text \<open>
  The test after the loop.  Python reads \<open>len(data) == 0 ^ requested_size == 0\<close> as
  the chained comparison \<open>len(data) == (0 ^ requested_size) == 0\<close>, since \<open>^\<close>
  binds tighter than \<open>==\<close>; \<open>%\<close> by zero raises \<open>ZeroDivisionError\<close>.
\<close>

definition validate_size :: "'a list \<Rightarrow> int \<Rightarrow> 'a list \<Rightarrow> error + 'a list" where
  "validate_size data requested_size data_out =
     (let raise =
            (if length data = 0 \<or> requested_size = 0
             then Inl (ValueError ''Empty array input'')
             else Inl (ValueError ''Input array does not evenly distribute into sessions''))
      in if int (length data) = xor 0 requested_size \<and> xor 0 requested_size = 0 then raise
         else if length data = 0 then Inl ZeroDivisionError
         else if requested_size mod int (length data) \<noteq> 0 then raise
         else Inr data_out)"

definition expand_to_requested_array_size :: "'a data_in \<Rightarrow> int \<Rightarrow> error + 'a list" where
  "expand_to_requested_array_size data_in requested_size =
     (case data_in of
        Tuple data \<Rightarrow>
          (case cycle_loop data (nat requested_size) 0 [] of
             Inl e \<Rightarrow> Inl e
           | Inr data_out \<Rightarrow> validate_size data requested_size data_out)
      | Scalar x \<Rightarrow> validate_size [x] requested_size (replicate (nat requested_size) x))"

section \<open>Control and acquisition\<close>

text \<open>
  \<open>abort\<close>: the loop body is the expression statement \<open>ssc.session.abort\<close>, a
  reference to the bound method that is never applied, so an iteration issues no
  driver call.
\<close>

fun abort_loop :: "SSCScope list \<Rightarrow> 'm call_log \<Rightarrow> 'm call_log" where
  "abort_loop [] lg = lg"
| "abort_loop (e # rest) lg = abort_loop rest lg"

definition abort :: "TSMScope \<Rightarrow> 'm call_log \<Rightarrow> TSMScope \<times> 'm call_log" where
  "abort tsm lg = (tsm, abort_loop (ssc tsm) lg)"

fun start_acquisition_loop :: "SSCScope list \<Rightarrow> 'm call_log \<Rightarrow> 'm call_log" where
  "start_acquisition_loop [] lg = lg"
| "start_acquisition_loop (e # rest) lg =
     start_acquisition_loop rest (driver (session e) Initiate (driver (session e) Abort lg))"

definition tsm_ssc_scope_start_acquisition ::
  "TSMScope \<Rightarrow> 'm call_log \<Rightarrow> TSMScope \<times> 'm call_log" where
  "tsm_ssc_scope_start_acquisition tsm lg = (tsm, start_acquisition_loop (rev (ssc tsm)) lg)"

text \<open>
  \<open>scope_measure_statistics\<close>.  What \<open>fetch_measurement_stats\<close> returns is the
  driver's business: \<open>reply\<close> gives it as a function of the calls made so far, the
  fetch included.
\<close>

fun measure_statistics_loop ::
  "('m call_log \<Rightarrow> 'r) \<Rightarrow> 'm \<Rightarrow> SSCScope list \<Rightarrow> 'r list \<Rightarrow> 'm call_log \<Rightarrow> 'r list \<times> 'm call_log" where
  "measure_statistics_loop reply f [] stats lg = (stats, lg)"
| "measure_statistics_loop reply f (e # rest) stats lg =
     (let lg1 = driver (session e) (Clear_waveform_measurement_stats (channels e) ALL_MEASUREMENTS) lg;
          lg2 = driver (session e) Initiate lg1;
          lg3 = driver (session e) (Fetch_measurement_stats (channels e) f) lg2
      in measure_statistics_loop reply f rest (stats @ [reply lg3]) lg3)"

definition scope_measure_statistics ::
  "('m call_log \<Rightarrow> 'r) \<Rightarrow> TSMScope \<Rightarrow> 'm \<Rightarrow> 'm call_log \<Rightarrow> (TSMScope \<times> 'r list) \<times> 'm call_log" where
  "scope_measure_statistics reply tsm f lg =
     (case measure_statistics_loop reply f (ssc tsm) [] lg of
        (stats, lg') \<Rightarrow> ((tsm, stats), lg'))"

text \<open>
  \<open>tsm_ssc_scope_export_start_triggers\<close>.  The master test is
  \<open>tsm.ssc.index(ssc) == 0\<close>: the first position holding an entry equal to \<open>ssc\<close>
  (entries are tuples, compared field by field).  \<open>ssc\<close> is taken from the list,
  so \<open>index\<close> finds it.
\<close>

fun export_loop ::
  "SSCScope list \<Rightarrow> string \<Rightarrow> SSCScope list \<Rightarrow> string \<Rightarrow> 'm call_log \<Rightarrow> string \<times> 'm call_log" where
  "export_loop all_ssc output_terminal [] start_trigger lg = (start_trigger, lg)"
| "export_loop all_ssc output_terminal (e # rest) start_trigger lg =
     (if list_index all_ssc e = Some 0 then
        (let lg1 = driver (session e) Configure_trigger_immediate lg;
             lg2 = driver (session e) (Set_exported_start_trigger_output_terminal output_terminal) lg1;
             lg3 = driver (session e) Commit lg2
         in export_loop all_ssc output_terminal rest
              (''/'' @ io_resource_descriptor (session e) @ ''/'' @ output_terminal) lg3)
      else
        (let lg1 = driver (session e) (Configure_trigger_digital start_trigger POSITIVE 0 0) lg;
             lg2 = driver (session e) Initiate lg1
         in export_loop all_ssc output_terminal rest start_trigger lg2))"

definition tsm_ssc_scope_export_start_triggers ::
  "TSMScope \<Rightarrow> string \<Rightarrow> 'm call_log \<Rightarrow> (TSMScope \<times> string) \<times> 'm call_log" where
  "tsm_ssc_scope_export_start_triggers tsm output_terminal lg =
     (if ssc tsm \<noteq> [] then
        (case export_loop (ssc tsm) output_terminal (ssc tsm) [] lg of
           (start_trigger, lg') \<Rightarrow> ((tsm, start_trigger), lg'))
      else ((tsm, []), lg))"

section \<open>Notions used to state the properties\<close>

text \<open>
  The position that the pair of a channel-group index and a channel index designates
  in the slot array: \<open>None\<close> where one of the two subscripts of
  \<open>pins_array_for_session_input[g].Pins[c]\<close> is out of range.
\<close>

definition slot_position :: "PinsCluster list \<Rightarrow> int \<Rightarrow> int \<Rightarrow> (nat \<times> nat) option" where
  "slot_position arr g c =
     (case py_index (length arr) g of
        None \<Rightarrow> None
      | Some gi \<Rightarrow>
          (case py_index (length (Pins (arr ! gi))) c of
             None \<Rightarrow> None
           | Some ci \<Rightarrow> Some (gi, ci)))"

text \<open>
  The channel address as the specification words it: the bare pin name for a system
  pin, the site-prefixed form for every other kind.
\<close>

definition spec_channel_address :: "int \<Rightarrow> string \<Rightarrow> PinType \<Rightarrow> string" where
  "spec_channel_address n pin kind =
     (if kind = System_Pin then pin else ''Site'' @ format_int n @ ''/'' @ pin)"

text \<open>
  The writes that the specification asks for: one per (site, pin) pair, site by site
  and, within a site, pin by pin; each is the designated position with the channel
  address of the pair.
\<close>

definition spec_writes ::
  "PinsCluster list \<Rightarrow> (int list \<times> int list \<times> int) list \<Rightarrow> string list \<Rightarrow> PinType list
     \<Rightarrow> ((nat \<times> nat) \<times> string) list" where
  "spec_writes arr rows names kinds =
     [(the (slot_position arr g c), spec_channel_address n pin kind).
        (gs, cs, n) \<leftarrow> rows, (g, c, pin, kind) \<leftarrow> zip gs (zip cs (zip names kinds))]"

definition write_slot :: "PinsCluster list \<Rightarrow> nat \<Rightarrow> nat \<Rightarrow> string \<Rightarrow> PinsCluster list" where
  "write_slot arr gi ci v = arr[gi := (arr ! gi)\<lparr>Pins := (Pins (arr ! gi))[ci := v]\<rparr>]"

definition apply_writes ::
  "((nat \<times> nat) \<times> string) list \<Rightarrow> PinsCluster list \<Rightarrow> PinsCluster list" where
  "apply_writes ws arr = fold (\<lambda>((gi, ci), v) a. write_slot a gi ci v) ws arr"

text \<open>No comma of the string has white space immediately before or after it.\<close>

fun no_space_at_comma :: "string \<Rightarrow> bool" where
  "no_space_at_comma (a # b # cs) =
     (\<not> (is_space a \<and> b = CHR '','') \<and> \<not> (a = CHR '','' \<and> is_space b) \<and>
      no_space_at_comma (b # cs))"
| "no_space_at_comma s = True"

section \<open>Properties of control and acquisition\<close>

lemma start_acquisition_loop_log:
  "start_acquisition_loop es lg =
     lg @ concat (map (\<lambda>e. [(session e, Abort), (session e, Initiate)]) es)"
  by (induction es arbitrary: lg) (simp_all add: driver_def)

text \<open>
  C6.  Starting acquisition appends to the call log, for every entry of the
  aggregate taken in reverse aggregate order, an abort followed by an initiate on
  that entry's session, and nothing else; it returns the aggregate.
\<close>

theorem start_acquisition_reverse_order:
  "tsm_ssc_scope_start_acquisition tsm lg =
     (tsm, lg @ concat (map (\<lambda>e. [(session e, Abort), (session e, Initiate)]) (rev (ssc tsm))))"
  by (simp add: tsm_ssc_scope_start_acquisition_def start_acquisition_loop_log)

lemma measure_statistics_loop_log:
  "snd (measure_statistics_loop reply f es stats lg) =
     lg @ concat (map (\<lambda>e. [(session e, Clear_waveform_measurement_stats (channels e) ALL_MEASUREMENTS),
                             (session e, Initiate),
                             (session e, Fetch_measurement_stats (channels e) f)]) es)"
  by (induction es arbitrary: stats lg) (simp_all add: driver_def Let_def)

lemma measure_statistics_loop_length:
  "length (fst (measure_statistics_loop reply f es stats lg)) = length stats + length es"
  by (induction es arbitrary: stats lg) (simp_all add: Let_def)

text \<open>
  C9.  The statistics measurement returns the aggregate with one statistic per
  entry, and the driver calls it adds to the log are, entry by entry in aggregate
  order, the clearing of the measurement accumulators of the entry's channels,
  then the initiate of its session, then the fetch of the statistic: no fetch
  comes before the clear and the initiate of its entry.
\<close>

theorem measure_statistics_clear_initiate_fetch:
  "fst (fst (scope_measure_statistics reply tsm f lg)) = tsm \<and>
   length (snd (fst (scope_measure_statistics reply tsm f lg))) = length (ssc tsm) \<and>
   snd (scope_measure_statistics reply tsm f lg) =
     lg @ concat (map (\<lambda>e. [(session e, Clear_waveform_measurement_stats (channels e) ALL_MEASUREMENTS),
                             (session e, Initiate),
                             (session e, Fetch_measurement_stats (channels e) f)]) (ssc tsm))"
  using measure_statistics_loop_log [of reply f "ssc tsm" "[]" lg]
    measure_statistics_loop_length [of reply f "ssc tsm" "[]" lg]
  by (cases "measure_statistics_loop reply f (ssc tsm) [] lg") (simp add: scope_measure_statistics_def)

lemma abort_loop_id: "abort_loop es lg = lg"
  by (induction es) simp_all

text \<open>
  C10.  What \<open>abort\<close> does on the code: it returns the aggregate and leaves the call
  log as it was, whatever the entries are; no driver abort is issued.
\<close>

theorem abort_issues_no_driver_call: "abort tsm lg = (tsm, lg)"
  by (simp add: abort_def abort_loop_id)

section \<open>Properties of pin classification\<close>

text \<open>
  C2.  The classification scenario on the code: with DUT pins A and B, system pin
  Clk, and any pin-group membership provider, the request G1, Clk comes back as it
  was given, G1 classified as a pin group.  The flag \<open>pin_group_found\<close> holds what
  the last name of the request set, here \<open>False\<close> for Clk, so the group is not
  expanded.
\<close>

theorem classification_scenario_keeps_pin_group:
  "check_for_pin_group
     \<lparr>dut_pins = [''A'', ''B''], system_pins = [''Clk''], ctx_site_numbers = sites,
      get_pins_in_pin_group = members\<rparr> [''G1'', ''Clk'']
   = ([Pin_Group, System_Pin], [''G1'', ''Clk''])"
  by (simp add: check_for_pin_group_def identify_pin_types_def get_all_pin_names_def)

section \<open>Properties of array broadcasting\<close>

lemma cycle_loop_within:
  "i + k \<le> length data \<Longrightarrow> cycle_loop data k i data_out = Inr (data_out @ take k (drop i data))"
proof (induction k arbitrary: i data_out)
  case 0
  then show ?case by simp
next
  case (Suc k)
  then have i: "i < length data" and rest: "Suc i + k \<le> length data" by simp_all
  have "take (Suc k) (drop i data) = data ! i # take k (drop (Suc i) data)"
    using i by (simp add: Cons_nth_drop_Suc [symmetric])
  with Suc.IH [OF rest] i show ?case by simp
qed

lemma cycle_loop_overrun:
  "length data < i + k \<Longrightarrow> i \<le> length data \<Longrightarrow> cycle_loop data k i data_out = Inl IndexError"
proof (induction k arbitrary: i data_out)
  case 0
  then show ?case by simp
next
  case (Suc k)
  show ?case
  proof (cases "i < length data")
    case True
    with Suc.prems have "length data < Suc i + k" and "Suc i \<le> length data" by simp_all
    from Suc.IH [OF this] True show ?thesis by simp
  next
    case False
    then show ?thesis by simp
  qed
qed

lemma validate_size_scalar: "validate_size [x] n out = Inr out"
  by (simp add: validate_size_def)

lemma expand_scalar:
  "expand_to_requested_array_size (Scalar x) n = Inr (replicate (nat n) x)"
  by (simp add: expand_to_requested_array_size_def validate_size_scalar)

lemma expand_tuple_same_length:
  "data \<noteq> [] \<Longrightarrow> expand_to_requested_array_size (Tuple data) (int (length data)) = Inr data"
  using cycle_loop_within [of 0 "length data" data "[]"]
  by (simp add: expand_to_requested_array_size_def validate_size_def)

lemma expand_tuple_longer_target:
  "int (length data) < n \<Longrightarrow> expand_to_requested_array_size (Tuple data) n = Inl IndexError"
  using cycle_loop_overrun [of data 0 "nat n" "[]"]
  by (simp add: expand_to_requested_array_size_def)

lemma expand_tuple_shorter_target:
  "n \<le> int (length data) \<Longrightarrow>
   expand_to_requested_array_size (Tuple data) n = validate_size data n (take (nat n) data)"
  using cycle_loop_within [of 0 "nat n" data "[]"]
  by (simp add: expand_to_requested_array_size_def)

lemma expand_empty_input_error_iff:
  "expand_to_requested_array_size d n = Inl (ValueError ''Empty array input'')
     \<longleftrightarrow> d = Tuple [] \<and> n = 0"
proof (cases d)
  case (Tuple data)
  show ?thesis
  proof (cases "int (length data) < n")
    case True
    then show ?thesis using Tuple expand_tuple_longer_target [OF True] by auto
  next
    case False
    then have "n \<le> int (length data)" by simp
    from expand_tuple_shorter_target [OF this] show ?thesis
      using Tuple by (auto simp: validate_size_def Let_def split: if_splits)
  qed
next
  case (Scalar x)
  then show ?thesis by (simp add: expand_scalar)
qed

lemma expand_uneven_error_iff:
  "expand_to_requested_array_size d n =
     Inl (ValueError ''Input array does not evenly distribute into sessions'')
     \<longleftrightarrow> (\<exists>data. d = Tuple data \<and> data \<noteq> [] \<and> n < int (length data) \<and> n mod int (length data) \<noteq> 0)"
proof (cases d)
  case (Tuple data)
  show ?thesis
  proof (cases "int (length data) < n")
    case True
    then show ?thesis using Tuple expand_tuple_longer_target [OF True] by auto
  next
    case False
    then have le: "n \<le> int (length data)" by simp
    have "n < int (length data)" if "n mod int (length data) \<noteq> 0"
      using le that by (cases "n = int (length data)") auto
    with expand_tuple_shorter_target [OF le] show ?thesis
      using Tuple by (auto simp: validate_size_def Let_def split: if_splits)
  qed
next
  case (Scalar x)
  then show ?thesis by (simp add: expand_scalar)
qed

text \<open>
  C3.  Broadcasting the two-element sequence (1, 2) to four elements on the code:
  the loop appends \<open>data[0]\<close> and \<open>data[1]\<close>, then reads \<open>data[2]\<close>, which
  raises \<open>IndexError\<close>; no cycled sequence is returned.  (The scalar case and the
  case of equal length behave as the lemmas \<open>expand_scalar\<close> and
  \<open>expand_tuple_same_length\<close> say; every target longer than the sequence fails, by
  \<open>expand_tuple_longer_target\<close>.)
\<close>

theorem broadcast_cycle_index_error:
  "expand_to_requested_array_size (Tuple [1 :: int, 2]) 4 = Inl IndexError"
  by code_simp

text \<open>
  C4.  The failures of broadcasting on the code: a non-empty sequence with target
  count zero is accepted and gives the empty output; the empty sequence with target
  count zero raises the empty-input error; the empty sequence with a positive
  target, and a sequence whose length does not divide a larger target, raise
  \<open>IndexError\<close> from the loop, before the test is reached.
\<close>

theorem broadcast_zero_target_no_error:
  "expand_to_requested_array_size (Tuple [1 :: int, 2]) 0 = Inr [] \<and>
   expand_to_requested_array_size (Tuple ([] :: int list)) 0 = Inl (ValueError ''Empty array input'') \<and>
   expand_to_requested_array_size (Tuple ([] :: int list)) 3 = Inl IndexError \<and>
   expand_to_requested_array_size (Tuple [1 :: int, 2]) 3 = Inl IndexError"
  by code_simp

section \<open>Properties of the trigger export\<close>

lemma list_index_Cons_zero: "list_index (x # xs) e = Some 0 \<longleftrightarrow> x = e"
  by (cases "list_index xs e") auto

lemma export_loop_after_master:
  assumes "path = ''/'' @ io_resource_descriptor (session e0) @ ''/'' @ ot"
  shows "export_loop (e0 # all_rest) ot es path lg =
     (path,
      lg @ concat (map (\<lambda>e. if e = e0
                             then [(session e, Configure_trigger_immediate),
                                   (session e, Set_exported_start_trigger_output_terminal ot),
                                   (session e, Commit)]
                             else [(session e, Configure_trigger_digital path POSITIVE 0 0),
                                   (session e, Initiate)]) es))"
proof (induction es arbitrary: lg)
  case Nil
  then show ?case by simp
next
  case (Cons e es)
  show ?case
  proof (cases "e = e0")
    case True
    then show ?thesis
      using Cons.IH assms by (simp add: list_index_Cons_zero Let_def driver_def)
  next
    case False
    then have "e0 \<noteq> e" by blast
    then show ?thesis
      using Cons.IH False by (simp add: list_index_Cons_zero Let_def driver_def)
  qed
qed

lemma export_start_triggers_log:
  assumes "ssc tsm = e0 # rest"
    and "path = ''/'' @ io_resource_descriptor (session e0) @ ''/'' @ ot"
  shows "tsm_ssc_scope_export_start_triggers tsm ot lg =
     ((tsm, path),
      lg @ [(session e0, Configure_trigger_immediate),
            (session e0, Set_exported_start_trigger_output_terminal ot),
            (session e0, Commit)] @
        concat (map (\<lambda>e. if e = e0
                          then [(session e, Configure_trigger_immediate),
                                (session e, Set_exported_start_trigger_output_terminal ot),
                                (session e, Commit)]
                          else [(session e, Configure_trigger_digital path POSITIVE 0 0),
                                (session e, Initiate)]) rest))"
  using assms(1)
    export_loop_after_master [OF assms(2), of rest rest
      "lg @ [(session e0, Configure_trigger_immediate),
             (session e0, Set_exported_start_trigger_output_terminal ot),
             (session e0, Commit)]"]
  by (simp add: tsm_ssc_scope_export_start_triggers_def Let_def driver_def assms(2))

lemma export_start_triggers_first_not_repeated:
  assumes "ssc tsm = e0 # rest" and "e0 \<notin> set rest"
    and "path = ''/'' @ io_resource_descriptor (session e0) @ ''/'' @ ot"
  shows "tsm_ssc_scope_export_start_triggers tsm ot lg =
     ((tsm, path),
      lg @ [(session e0, Configure_trigger_immediate),
            (session e0, Set_exported_start_trigger_output_terminal ot),
            (session e0, Commit)] @
        concat (map (\<lambda>e. [(session e, Configure_trigger_digital path POSITIVE 0 0),
                          (session e, Initiate)]) rest))"
proof -
  have "map (\<lambda>e. if e = e0
                 then [(session e, Configure_trigger_immediate),
                       (session e, Set_exported_start_trigger_output_terminal ot),
                       (session e, Commit)]
                 else [(session e, Configure_trigger_digital path POSITIVE 0 0),
                       (session e, Initiate :: 'a driver_call)]) rest
      = map (\<lambda>e. [(session e, Configure_trigger_digital path POSITIVE 0 0),
                   (session e, Initiate)]) rest"
    using assms(2) by (induction rest) auto
  with export_start_triggers_log [OF assms(1) assms(3), of lg] show ?thesis by simp
qed

text \<open>
  C5.  The trigger export on an aggregate that holds the same entry twice: both
  positions pass the test \<open>tsm.ssc.index(ssc) == 0\<close>, so the entry at index 1 is
  configured as master a second time and is neither configured as a digital-edge
  slave nor initiated.  (For an aggregate whose first entry does not occur again,
  \<open>export_start_triggers_first_not_repeated\<close> gives the master calls on the
  first entry followed by the slave calls on the others, in aggregate order.)
\<close>

theorem export_start_triggers_repeated_first_entry:
  "tsm_ssc_scope_export_start_triggers (tsm\<lparr>ssc := [e, e]\<rparr>) ot lg =
     ((tsm\<lparr>ssc := [e, e]\<rparr>, ''/'' @ io_resource_descriptor (session e) @ ''/'' @ ot),
      lg @ [(session e, Configure_trigger_immediate),
            (session e, Set_exported_start_trigger_output_terminal ot),
            (session e, Commit),
            (session e, Configure_trigger_immediate),
            (session e, Set_exported_start_trigger_output_terminal ot),
            (session e, Commit)])"
  by (simp add: tsm_ssc_scope_export_start_triggers_def Let_def driver_def)

section \<open>Properties of the per-channel expansion\<close>

lemma zip_eq_map_nth:
  "zip xs ys = map (\<lambda>i. (xs ! i, ys ! i)) [0..<min (length xs) (length ys)]"
  by (rule nth_equalityI) auto

lemma expand_entry:
  "expand_ssc_to_ssc_per_channel sscs =
     concat (map (\<lambda>e. map (\<lambda>(channel, chl). \<lparr>session = session e, channels = channel, channel_list = chl\<rparr>)
                        (zip (re_split (channels e)) (re_split (channel_list e)))) sscs)"
  unfolding expand_ssc_to_ssc_per_channel_def
  by (induction sscs) (simp_all add: case_prod_unfold)

lemma expand_append:
  "expand_ssc_to_ssc_per_channel (xs @ ys) =
     expand_ssc_to_ssc_per_channel xs @ expand_ssc_to_ssc_per_channel ys"
  by (simp add: expand_entry)

text \<open>
  C7, as the code has it.  The expansion never fails.  For each entry, in aggregate
  order, it pairs position \<open>i\<close> of the split channels descriptor with position
  \<open>i\<close> of the split channel list for every \<open>i\<close> below the smaller of the two
  cardinalities; the positions of the longer list beyond it are dropped.
\<close>

theorem per_channel_expansion_pairs_up_to_shorter:
  "expand_ssc_to_ssc_per_channel sscs =
     concat (map (\<lambda>e. map (\<lambda>i. \<lparr>session = session e,
                                 channels = re_split (channels e) ! i,
                                 channel_list = re_split (channel_list e) ! i\<rparr>)
                        [0..<min (length (re_split (channels e))) (length (re_split (channel_list e)))])
                 sscs)"
  unfolding expand_entry
  by (subst zip_eq_map_nth) (simp add: comp_def)

text \<open>
  C7, the claim refuted.  An entry with two channels and one channel address
  (unequal cardinality) is expanded, without failure, to a single entry: channel
  \<open>1\<close> is dropped.
\<close>

theorem per_channel_expansion_truncates:
  "length (re_split ''0,1'') \<noteq> length (re_split ''Site0/A'') \<and>
   expand_ssc_to_ssc_per_channel
     [\<lparr>session = \<lparr>handle = 0, io_resource_descriptor = ''Dev1''\<rparr>,
       channels = ''0,1'', channel_list = ''Site0/A''\<rparr>]
   = [\<lparr>session = \<lparr>handle = 0, io_resource_descriptor = ''Dev1''\<rparr>,
       channels = ''0'', channel_list = ''Site0/A''\<rparr>]"
  by (simp add: expand_ssc_to_ssc_per_channel_def re_split_def is_space_def)

lemma comma_not_space: "\<not> is_space CHR '',''"
  by (simp add: is_space_def)

lemma no_space_at_comma_tail: "no_space_at_comma (c # cs) \<Longrightarrow> no_space_at_comma cs"
  by (cases cs) simp_all

lemma dropWhile_space_comma:
  "no_space_at_comma s \<Longrightarrow> dropWhile is_space s = CHR '','' # r \<Longrightarrow> s = CHR '','' # r"
proof (induction s)
  case Nil
  then show ?case by simp
next
  case (Cons a s)
  show ?case
  proof (cases "is_space a")
    case True
    with Cons.prems have d: "dropWhile is_space s = CHR '','' # r" by simp
    from Cons.IH [OF no_space_at_comma_tail [OF Cons.prems(1)] d] have "s = CHR '','' # r" .
    with Cons.prems(1) True show ?thesis by simp
  next
    case False
    with Cons.prems show ?thesis by simp
  qed
qed

lemma split_from_not_Nil: "split_from acc s \<noteq> []"
  by (induction acc s rule: split_from.induct) (auto split: list.splits)

lemma join_Cons: "xs \<noteq> [] \<Longrightarrow> join (x # xs) = x @ CHR '','' # join xs"
  by (cases xs) simp_all

lemma join_split_from: "no_space_at_comma s \<Longrightarrow> join (split_from acc s) = rev acc @ s"
proof (induction acc s rule: split_from.induct)
  case (1 acc)
  then show ?case by simp
next
  case (2 acc c cs)
  have tail: "no_space_at_comma cs" using "2.prems" by (rule no_space_at_comma_tail)
  show ?case
  proof (cases "dropWhile is_space (c # cs)")
    case Nil
    with "2.IH"(1) tail show ?thesis by simp
  next
    case (Cons d r)
    show ?thesis
    proof (cases "d = CHR '',''")
      case True
      from Cons True have "dropWhile is_space (c # cs) = CHR '','' # r" by simp
      from dropWhile_space_comma [OF "2.prems" this] have eq: "c # cs = CHR '','' # r" .
      then have c: "c = CHR '',''" and cs: "cs = r" by simp_all
      have "\<not> is_space (hd r)" if "r \<noteq> []"
        using "2.prems" that unfolding c cs by (cases r) simp_all
      then have r: "dropWhile is_space r = r" by (cases r) simp_all
      have "join (split_from [] (dropWhile is_space r)) = r"
        using "2.IH"(2) [OF Cons True] tail r cs by simp
      with Cons True c cs show ?thesis
        by (simp add: join_Cons split_from_not_Nil)
    next
      case False
      with Cons "2.IH"(3) tail show ?thesis by simp
    qed
  qed
qed

lemma join_re_split: "no_space_at_comma s \<Longrightarrow> join (re_split s) = s"
  by (simp add: re_split_def join_split_from)

lemma dropWhile_keeps_head: "dropWhile P (b # bs) = b # bs \<Longrightarrow> \<not> P b"
proof
  assume eq: "dropWhile P (b # bs) = b # bs" and "P b"
  then have "dropWhile P bs = b # bs" by simp
  then have "length (b # bs) \<le> length bs"
    using length_dropWhile_le [of P bs] by simp
  then show False by simp
qed

lemma length_dropWhile_less:
  "dropWhile P xs \<noteq> xs \<Longrightarrow> length (dropWhile P xs) < length xs"
proof (cases xs)
  case Nil
  assume "dropWhile P xs \<noteq> xs"
  with Nil show ?thesis by simp
next
  case (Cons x xs')
  assume "dropWhile P xs \<noteq> xs"
  with Cons have "P x" by (auto split: if_splits)
  then have "dropWhile P xs = dropWhile P xs'" using Cons by simp
  then show ?thesis using length_dropWhile_le [of P xs'] Cons by simp
qed

lemma length_join_split_from_le:
  "length (join (split_from acc s)) \<le> length acc + length s"
proof (induction acc s rule: split_from.induct)
  case (1 acc)
  then show ?case by simp
next
  case (2 acc c cs)
  show ?case
  proof (cases "dropWhile is_space (c # cs)")
    case Nil
    with "2.IH"(1) show ?thesis by simp
  next
    case (Cons d r)
    show ?thesis
    proof (cases "d = CHR '',''")
      case True
      have "length (d # r) \<le> length (c # cs)"
        using length_dropWhile_le [of is_space "c # cs"] Cons by simp
      moreover have "length (dropWhile is_space r) \<le> length r"
        by (rule length_dropWhile_le)
      ultimately show ?thesis
        using "2.IH"(2) [OF Cons True] Cons True
        by (simp add: join_Cons split_from_not_Nil)
    next
      case False
      with Cons "2.IH"(3) show ?thesis by simp
    qed
  qed
qed

lemma length_join_split_from_less:
  "\<not> no_space_at_comma s \<Longrightarrow> length (join (split_from acc s)) < length acc + length s"
proof (induction acc s rule: split_from.induct)
  case (1 acc)
  then show ?case by simp
next
  case (2 acc c cs)
  show ?case
  proof (cases "dropWhile is_space (c # cs)")
    case Nil
    then have sp: "is_space c" and dcs: "dropWhile is_space cs = []"
      by (simp_all split: if_splits)
    have "\<not> no_space_at_comma cs"
    proof (cases cs)
      case Nil
      with "2.prems" show ?thesis by simp
    next
      case (Cons b bs)
      with dcs have "is_space b" by (simp split: if_splits)
      then have "b \<noteq> CHR '',''" using comma_not_space by auto
      with "2.prems" Cons sp show ?thesis using comma_not_space by auto
    qed
    with Nil "2.IH"(1) show ?thesis by simp
  next
    case (Cons d r)
    show ?thesis
    proof (cases "d = CHR '',''")
      case True
      have le1: "length (d # r) \<le> length (c # cs)"
        using length_dropWhile_le [of is_space "c # cs"] Cons by simp
      have le2: "length (dropWhile is_space r) \<le> length r"
        by (rule length_dropWhile_le)
      have le3: "length (join (split_from [] (dropWhile is_space r))) \<le> length (dropWhile is_space r)"
        using length_join_split_from_le [of "[]" "dropWhile is_space r"] by simp
      have eq: "join (split_from acc (c # cs)) =
          rev acc @ CHR '','' # join (split_from [] (dropWhile is_space r))"
        using Cons True by (simp add: join_Cons split_from_not_Nil)
      show ?thesis
      proof (cases "c # cs = d # r")
        case False
        then have "dropWhile is_space (c # cs) \<noteq> c # cs" unfolding Cons by blast
        from length_dropWhile_less [OF this] have "length (d # r) < length (c # cs)"
          using Cons by simp
        with le2 le3 eq show ?thesis by simp
      next
        case same: True
        then have c: "c = CHR '',''" and cs: "cs = r" using True by simp_all
        show ?thesis
        proof (cases "dropWhile is_space r = r")
          case False
          then have "length (dropWhile is_space r) < length r"
            by (rule length_dropWhile_less)
          with le3 eq cs show ?thesis by simp
        next
          case keep: True
          have "\<not> no_space_at_comma r"
          proof (cases r)
            case Nil
            with "2.prems" c cs show ?thesis by simp
          next
            case (Cons b bs)
            from keep [unfolded Cons] have "\<not> is_space b" by (rule dropWhile_keeps_head)
            with "2.prems" c cs Cons show ?thesis using comma_not_space by auto
          qed
          from "2.IH"(2) [OF \<open>dropWhile is_space (c # cs) = d # r\<close> \<open>d = CHR '',''\<close>] this keep
          have "length (join (split_from [] r)) < length r" by simp
          with eq keep cs show ?thesis by simp
        qed
      qed
    next
      case False
      have "\<not> no_space_at_comma cs"
      proof (cases cs)
        case Nil
        with "2.prems" show ?thesis by simp
      next
        case (Cons b bs)
        show ?thesis
        proof (cases "is_space c")
          case True
          with \<open>dropWhile is_space (c # cs) = d # r\<close> have "dropWhile is_space cs = d # r" by simp
          with False Cons have "b \<noteq> CHR '',''" using comma_not_space by (auto split: if_splits)
          with "2.prems" Cons True show ?thesis using comma_not_space by auto
        next
          case nsp: False
          with \<open>dropWhile is_space (c # cs) = d # r\<close> have "c = d" by simp
          with False have "c \<noteq> CHR '',''" by simp
          with "2.prems" Cons nsp show ?thesis by auto
        qed
      qed
      with Cons False "2.IH"(3) show ?thesis by simp
    qed
  qed
qed

lemma join_re_split_iff: "join (re_split s) = s \<longleftrightarrow> no_space_at_comma s"
proof
  assume eq: "join (re_split s) = s"
  show "no_space_at_comma s"
  proof (rule ccontr)
    assume "\<not> no_space_at_comma s"
    from length_join_split_from_less [OF this, of "[]"] eq show False
      by (simp add: re_split_def)
  qed
next
  assume "no_space_at_comma s"
  then show "join (re_split s) = s" by (rule join_re_split)
qed

text \<open>
  C8, as the code has it.  In an aggregate in which every entry has split lists of
  equal cardinality and no comma of its channels descriptor or of its channel list
  has white space next to it, the expanded entries that come from the entry at
  index \<open>k\<close> are a contiguous block of the expansion, and joining their channels
  values (their channel list values) with a comma gives back the entry's channels
  descriptor (its channel list).  The condition on the commas is the exact one:
  by \<open>join_re_split_iff\<close> a string is the join of its split exactly when it
  meets it.
\<close>

theorem per_channel_expansion_round_trip:
  assumes "\<forall>e \<in> set sscs. length (re_split (channels e)) = length (re_split (channel_list e)) \<and>
             no_space_at_comma (channels e) \<and> no_space_at_comma (channel_list e)"
    and "k < length sscs"
  shows "expand_ssc_to_ssc_per_channel sscs =
           expand_ssc_to_ssc_per_channel (take k sscs) @ expand_ssc_to_ssc_per_channel [sscs ! k] @
           expand_ssc_to_ssc_per_channel (drop (Suc k) sscs) \<and>
         join (map channels (expand_ssc_to_ssc_per_channel [sscs ! k])) = channels (sscs ! k) \<and>
         join (map channel_list (expand_ssc_to_ssc_per_channel [sscs ! k])) = channel_list (sscs ! k)"
proof -
  let ?e = "sscs ! k"
  from assms have e: "length (re_split (channels ?e)) = length (re_split (channel_list ?e))"
    and tc: "no_space_at_comma (channels ?e)" and tl: "no_space_at_comma (channel_list ?e)"
    by simp_all
  have "sscs = take k sscs @ [?e] @ drop (Suc k) sscs"
    using assms(2) by (simp add: Cons_nth_drop_Suc)
  then have "expand_ssc_to_ssc_per_channel sscs =
      expand_ssc_to_ssc_per_channel (take k sscs @ [?e] @ drop (Suc k) sscs)" by simp
  then have split: "expand_ssc_to_ssc_per_channel sscs =
           expand_ssc_to_ssc_per_channel (take k sscs) @ expand_ssc_to_ssc_per_channel [?e] @
           expand_ssc_to_ssc_per_channel (drop (Suc k) sscs)"
    by (simp only: expand_append)
  have "map channels (expand_ssc_to_ssc_per_channel [?e]) = re_split (channels ?e)"
    using e by (simp add: expand_entry comp_def case_prod_unfold)
  then have c: "join (map channels (expand_ssc_to_ssc_per_channel [?e])) = channels ?e"
    using tc by (simp add: join_re_split)
  have "map channel_list (expand_ssc_to_ssc_per_channel [?e]) = re_split (channel_list ?e)"
    using e by (simp add: expand_entry comp_def case_prod_unfold)
  then have l: "join (map channel_list (expand_ssc_to_ssc_per_channel [?e])) = channel_list ?e"
    using tl by (simp add: join_re_split)
  from split c l show ?thesis by simp
qed

text \<open>
  C8, an instance: one entry with channels descriptor \<open>0,1\<close> and channel list
  \<open>Site0/A,Site0/B\<close>.
\<close>

theorem per_channel_expansion_round_trip_witness:
  "length (re_split ''0,1'') = length (re_split ''Site0/A,Site0/B'') \<and>
   no_space_at_comma ''0,1'' \<and> no_space_at_comma ''Site0/A,Site0/B'' \<and>
   join (map channels (expand_ssc_to_ssc_per_channel
     [\<lparr>session = \<lparr>handle = 0, io_resource_descriptor = ''Dev1''\<rparr>,
       channels = ''0,1'', channel_list = ''Site0/A,Site0/B''\<rparr>])) = ''0,1'' \<and>
   join (map channel_list (expand_ssc_to_ssc_per_channel
     [\<lparr>session = \<lparr>handle = 0, io_resource_descriptor = ''Dev1''\<rparr>,
       channels = ''0,1'', channel_list = ''Site0/A,Site0/B''\<rparr>])) = ''Site0/A,Site0/B''"
proof -
  let ?e = "\<lparr>session = \<lparr>handle = 0, io_resource_descriptor = ''Dev1''\<rparr>,
       channels = ''0,1'', channel_list = ''Site0/A,Site0/B''\<rparr>"
  have len: "length (re_split ''0,1'') = length (re_split ''Site0/A,Site0/B'')"
    by (simp add: re_split_def is_space_def)
  have c: "no_space_at_comma ''0,1''"
    by (simp add: is_space_def)
  have l: "no_space_at_comma ''Site0/A,Site0/B''"
    by (simp add: is_space_def)
  have h: "\<forall>e \<in> set [?e]. length (re_split (channels e)) = length (re_split (channel_list e)) \<and>
             no_space_at_comma (channels e) \<and> no_space_at_comma (channel_list e)"
    using len c l by simp
  have k: "0 < length [?e]" by simp
  from per_channel_expansion_round_trip [OF h k] len c l show ?thesis by simp
qed

text \<open>
  C8, the claim refuted.  An entry whose channels descriptor is \<open>0, 1\<close> and whose
  channel list is \<open>Site0/A, Site0/B\<close> has split lists of equal cardinality, and the
  channels of its expanded entries join to \<open>0,1\<close>, the channel lists to
  \<open>Site0/A,Site0/B\<close>: the white space after the commas is gone.
\<close>

theorem per_channel_expansion_round_trip_strips_spaces:
  "length (re_split ''0, 1'') = length (re_split ''Site0/A, Site0/B'') \<and>
   join (map channels (expand_ssc_to_ssc_per_channel
     [\<lparr>session = \<lparr>handle = 0, io_resource_descriptor = ''Dev1''\<rparr>,
       channels = ''0, 1'', channel_list = ''Site0/A, Site0/B''\<rparr>])) \<noteq> ''0, 1'' \<and>
   join (map channel_list (expand_ssc_to_ssc_per_channel
     [\<lparr>session = \<lparr>handle = 0, io_resource_descriptor = ''Dev1''\<rparr>,
       channels = ''0, 1'', channel_list = ''Site0/A, Site0/B''\<rparr>])) \<noteq> ''Site0/A, Site0/B''"
  by (simp add: expand_ssc_to_ssc_per_channel_def re_split_def is_space_def)

section \<open>Properties of the channel-list resolver\<close>

lemma py_index_less: "py_index n i = Some k \<Longrightarrow> k < n"
  by (auto simp: py_index_def split: if_splits)

lemma slot_position_range:
  "slot_position arr g c = Some (gi, ci) \<Longrightarrow> gi < length arr \<and> ci < length (Pins (arr ! gi))"
  by (auto simp: slot_position_def dest: py_index_less split: option.splits)

lemma store_pin_slot:
  "store_pin arr g c v =
     (case slot_position arr g c of
        None \<Rightarrow> Inl IndexError
      | Some (gi, ci) \<Rightarrow> Inr (write_slot arr gi ci v))"
  by (simp add: store_pin_def slot_position_def write_slot_def split: option.splits)

lemma store_pin_out_of_range:
  "slot_position arr g c = None \<Longrightarrow> store_pin arr g c v = Inl IndexError"
  by (simp add: store_pin_slot)

lemma shape_write_slot:
  "map (\<lambda>a. length (Pins a)) (write_slot arr gi ci v) = map (\<lambda>a. length (Pins a)) arr"
proof (rule nth_equalityI)
  show "length (map (\<lambda>a. length (Pins a)) (write_slot arr gi ci v)) =
        length (map (\<lambda>a. length (Pins a)) arr)"
    by (simp add: write_slot_def)
next
  fix i
  assume "i < length (map (\<lambda>a. length (Pins a)) (write_slot arr gi ci v))"
  then have i: "i < length arr" by (simp add: write_slot_def)
  then show "map (\<lambda>a. length (Pins a)) (write_slot arr gi ci v) ! i =
        map (\<lambda>a. length (Pins a)) arr ! i"
    by (cases "i = gi") (simp_all add: write_slot_def)
qed

lemma slot_position_shape:
  assumes "map (\<lambda>a. length (Pins a)) arr' = map (\<lambda>a. length (Pins a)) arr"
  shows "slot_position arr' g c = slot_position arr g c"
proof -
  have len: "length arr' = length arr" using assms by (rule map_eq_imp_length_eq)
  have "length (Pins (arr' ! gi)) = length (Pins (arr ! gi))" if "gi < length arr" for gi
    using assms that len by (metis (mono_tags, lifting) nth_map)
  then show ?thesis
    by (auto simp: slot_position_def len dest: py_index_less split: option.splits)
qed

lemma write_slot_nth:
  assumes "gi' < length arr" and "ci' < length (Pins (arr ! gi'))"
  shows "Pins (write_slot arr gi ci v ! gi') ! ci' =
           (if (gi', ci') = (gi, ci) then v else Pins (arr ! gi') ! ci')"
proof (cases "gi' = gi")
  case True
  with assms show ?thesis by (cases "ci' = ci") (simp_all add: write_slot_def)
next
  case False
  then show ?thesis using assms by (simp add: write_slot_def)
qed

lemma PinType_value_one: "PinType_value kind = 1 \<longleftrightarrow> kind = System_Pin"
  by (cases kind) simp_all

lemma apply_writes_Cons:
  "apply_writes (((gi, ci), v) # ws) arr = apply_writes ws (write_slot arr gi ci v)"
  by (simp add: apply_writes_def)

lemma apply_writes_append: "apply_writes (ws @ ws') arr = apply_writes ws' (apply_writes ws arr)"
  by (simp add: apply_writes_def)

lemma shape_apply_writes:
  "map (\<lambda>a. length (Pins a)) (apply_writes ws arr) = map (\<lambda>a. length (Pins a)) arr"
proof (induction ws arbitrary: arr)
  case Nil
  then show ?case by (simp add: apply_writes_def)
next
  case (Cons w ws)
  obtain gi ci v where w: "w = ((gi, ci), v)" by (cases w) auto
  show ?case unfolding w apply_writes_Cons Cons.IH by (rule shape_write_slot)
qed

lemma per_pin_loop_writes:
  assumes "map (\<lambda>a. length (Pins a)) arr1 = map (\<lambda>a. length (Pins a)) arr0"
    and "\<And>g c pin kind. (g, c, pin, kind) \<in> set cells \<Longrightarrow> slot_position arr0 g c \<noteq> None"
  shows "per_pin_loop n cells arr1 =
     Inr (apply_writes
           (map (\<lambda>(g, c, pin, kind). (the (slot_position arr0 g c), spec_channel_address n pin kind)) cells)
           arr1)"
  using assms
proof (induction cells arbitrary: arr1)
  case Nil
  then show ?case by (simp add: apply_writes_def)
next
  case (Cons cell cells)
  obtain g c pin kind where cell: "cell = (g, c, pin, kind)" by (cases cell) auto
  have "slot_position arr0 g c \<noteq> None"
    by (rule Cons.prems(2) [of g c pin kind]) (simp add: cell)
  then obtain gi ci where pos0: "slot_position arr0 g c = Some (gi, ci)"
    by auto
  then have pos1: "slot_position arr1 g c = Some (gi, ci)"
    using slot_position_shape [OF Cons.prems(1)] by simp
  let ?v = "spec_channel_address n pin kind"
  have shape: "map (\<lambda>a. length (Pins a)) (write_slot arr1 gi ci ?v) = map (\<lambda>a. length (Pins a)) arr0"
    using Cons.prems(1) by (simp add: shape_write_slot)
  have rest: "slot_position arr0 g c \<noteq> None" if "(g, c, pin, kind) \<in> set cells" for g c pin kind
    using Cons.prems(2) [of g c pin kind] that by simp
  have step: "(if PinType_value kind = 1 then store_pin arr1 g c pin
               else store_pin arr1 g c (''Site'' @ format_int n @ ''/'' @ pin))
              = Inr (write_slot arr1 gi ci ?v)"
    by (simp add: store_pin_slot pos1 spec_channel_address_def PinType_value_one)
  show ?case
    unfolding cell per_pin_loop.simps step
    using Cons.IH [OF shape rest] by (simp add: pos0 apply_writes_Cons)
qed

lemma per_site_loop_writes:
  assumes "map (\<lambda>a. length (Pins a)) arr1 = map (\<lambda>a. length (Pins a)) arr0"
    and "\<And>gs cs n g c pin kind. (gs, cs, n) \<in> set rows \<Longrightarrow>
           (g, c, pin, kind) \<in> set (zip gs (zip cs (zip names kinds))) \<Longrightarrow>
           slot_position arr0 g c \<noteq> None"
  shows "per_site_loop rows names kinds arr1 = Inr (apply_writes (spec_writes arr0 rows names kinds) arr1)"
  using assms
proof (induction rows arbitrary: arr1)
  case Nil
  then show ?case by (simp add: apply_writes_def spec_writes_def)
next
  case (Cons row rows)
  obtain gs cs n where row: "row = (gs, cs, n)" by (cases row) auto
  let ?cells = "zip gs (zip cs (zip names kinds))"
  let ?ws = "map (\<lambda>(g, c, pin, kind). (the (slot_position arr0 g c), spec_channel_address n pin kind)) ?cells"
  have cells: "slot_position arr0 g c \<noteq> None" if "(g, c, pin, kind) \<in> set ?cells" for g c pin kind
    using Cons.prems(2) [of gs cs n g c pin kind] that row by simp
  have inner: "per_pin_loop n ?cells arr1 = Inr (apply_writes ?ws arr1)"
    by (rule per_pin_loop_writes [OF Cons.prems(1) cells])
  have shape: "map (\<lambda>a. length (Pins a)) (apply_writes ?ws arr1) = map (\<lambda>a. length (Pins a)) arr0"
    using Cons.prems(1) by (simp add: shape_apply_writes)
  have rest: "slot_position arr0 g c \<noteq> None"
    if "(gs, cs, n) \<in> set rows" and "(g, c, pin, kind) \<in> set (zip gs (zip cs (zip names kinds)))"
    for gs cs n g c pin kind
    using Cons.prems(2) [of gs cs n g c pin kind] that by simp
  have ws: "spec_writes arr0 (row # rows) names kinds = ?ws @ spec_writes arr0 rows names kinds"
    by (simp add: spec_writes_def row case_prod_unfold)
  show ?case
    unfolding row per_site_loop.simps inner
    using Cons.IH [OF shape rest] by (simp add: ws [unfolded row] apply_writes_append)
qed

lemma apply_writes_nth:
  assumes "gi < length arr" and "ci < length (Pins (arr ! gi))"
  shows "Pins (apply_writes ws arr ! gi) ! ci =
           (case map_of (rev ws) (gi, ci) of None \<Rightarrow> Pins (arr ! gi) ! ci | Some a \<Rightarrow> a)"
  using assms
proof (induction ws arbitrary: arr)
  case Nil
  then show ?case by (simp add: apply_writes_def)
next
  case (Cons w ws)
  obtain gj cj v where w: "w = ((gj, cj), v)" by (cases w) auto
  let ?arr = "write_slot arr gj cj v"
  have shape: "map (\<lambda>a. length (Pins a)) ?arr = map (\<lambda>a. length (Pins a)) arr"
    by (rule shape_write_slot)
  then have len: "length ?arr = length arr" by (rule map_eq_imp_length_eq)
  have gi: "gi < length ?arr" using Cons.prems(1) len by simp
  have "length (Pins (?arr ! gi)) = length (Pins (arr ! gi))"
    using shape Cons.prems(1) len by (metis (mono_tags, lifting) nth_map)
  then have ci: "ci < length (Pins (?arr ! gi))" using Cons.prems(2) by simp
  have first: "Pins (?arr ! gi) ! ci = (if (gi, ci) = (gj, cj) then v else Pins (arr ! gi) ! ci)"
    by (rule write_slot_nth [OF Cons.prems])
  show ?case
    unfolding w apply_writes_Cons Cons.IH [OF gi ci] first
    by (auto simp: map_add_def split: option.splits)
qed


lemma spec_writes_position:
  assumes "\<forall>(gs, cs, n) \<in> set rows. \<forall>(g, c, pin, kind) \<in> set (zip gs (zip cs (zip names kinds))).
             slot_position arr0 g c \<noteq> None"
    and "((gi, ci), a) \<in> set (spec_writes arr0 rows names kinds)"
  shows "gi < length arr0 \<and> ci < length (Pins (arr0 ! gi))"
proof -
  from assms(2) obtain gs cs n g c pin kind where row: "(gs, cs, n) \<in> set rows"
    and cell: "(g, c, pin, kind) \<in> set (zip gs (zip cs (zip names kinds)))"
    and pos: "(gi, ci) = the (slot_position arr0 g c)"
    by (auto simp: spec_writes_def)
  from assms(1) row cell have "slot_position arr0 g c \<noteq> None" by blast
  with pos have "slot_position arr0 g c = Some (gi, ci)" by auto
  then show ?thesis by (rule slot_position_range)
qed

text \<open>
  C1.  Name the values that \<open>_pin_query_context_to_channel_list\<close> computes before
  its loops: the site list, the classified pins, the two transposed index arrays and
  the initial slot array.  If every (site, pin) pair that the loops process
  designates an existing slot position, the resolver returns normally, with the site
  list and the comma-joined slots of an array \<open>arr\<close> of the initial shape.  The
  content of \<open>arr\<close> is the initial content overwritten by \<open>spec_writes\<close>: one
  write per (site, pin) pair, of the bare pin name for a system pin and of
  \<open>Site{n}/{pin}\<close> for every other kind, \<open>n\<close> the site number of the row, into
  the position the pair designates; where two pairs designate one position the later
  write stays.  When the designated positions are pairwise distinct, the position of
  every pair holds the address of that pair.
\<close>

theorem channel_list_resolver_writes_addresses:
  assumes sites: "sites = (if length site_nums = 0 then ctx_site_numbers ctx else site_nums)"
    and pins: "(kinds, names) =
        (if length expanded = 0 then check_for_pin_group ctx (pqc_pins pqc)
         else (map Type expanded, map Pin expanded))"
    and gt: "numpy_transpose (channel_group_indices pqc) = Inr gt"
    and ct: "numpy_transpose (channel_indices pqc) = Inr ct"
    and arr0: "arr0 = map (\<lambda>k. \<lparr>Pins = replicate (nat k) []\<rparr>) (number_of_pins_per_channel pqc)"
    and exist: "\<forall>(gs, cs, n) \<in> set (zip gt (zip ct sites)).
        \<forall>(g, c, pin, kind) \<in> set (zip gs (zip cs (zip names kinds))). slot_position arr0 g c \<noteq> None"
  shows "\<exists>arr :: PinsCluster list.
      pin_query_context_to_channel_list expanded site_nums pqc ctx =
        Inr (sites, map (\<lambda>a. join (Pins a)) arr) \<and>
      map (\<lambda>a. length (Pins a)) arr = map (\<lambda>a. length (Pins a)) arr0 \<and>
      (\<forall>gi ci. gi < length arr0 \<longrightarrow> ci < length (Pins (arr0 ! gi)) \<longrightarrow>
         Pins (arr ! gi) ! ci =
           (case map_of (rev (spec_writes arr0 (zip gt (zip ct sites)) names kinds)) (gi, ci) of
              None \<Rightarrow> Pins (arr0 ! gi) ! ci
            | Some a \<Rightarrow> a)) \<and>
      (distinct (map fst (spec_writes arr0 (zip gt (zip ct sites)) names kinds)) \<longrightarrow>
         (\<forall>((gi, ci), a) \<in> set (spec_writes arr0 (zip gt (zip ct sites)) names kinds).
            Pins (arr ! gi) ! ci = a))"
proof -
  let ?rows = "zip gt (zip ct sites)"
  let ?ws = "spec_writes arr0 ?rows names kinds"
  let ?arr = "apply_writes ?ws arr0"
  have ex: "slot_position arr0 g c \<noteq> None"
    if "(gs, cs, n) \<in> set ?rows" and "(g, c, pin, kind) \<in> set (zip gs (zip cs (zip names kinds)))"
    for gs cs n g c pin kind
    using exist that by blast
  have loop: "per_site_loop ?rows names kinds arr0 = Inr ?arr"
    by (rule per_site_loop_writes [OF refl ex])
  have res: "pin_query_context_to_channel_list expanded site_nums pqc ctx =
        Inr (sites, map (\<lambda>a. join (Pins a)) ?arr)"
    unfolding pin_query_context_to_channel_list_def Let_def sites [symmetric] pins [symmetric]
      arr0 [symmetric]
    by (simp add: gt ct loop)
  have shape: "map (\<lambda>a. length (Pins a)) ?arr = map (\<lambda>a. length (Pins a)) arr0"
    by (rule shape_apply_writes)
  have content: "Pins (?arr ! gi) ! ci =
      (case map_of (rev ?ws) (gi, ci) of None \<Rightarrow> Pins (arr0 ! gi) ! ci | Some a \<Rightarrow> a)"
    if "gi < length arr0" and "ci < length (Pins (arr0 ! gi))" for gi ci
    using that by (rule apply_writes_nth)
  have each: "Pins (?arr ! gi) ! ci = a"
    if d: "distinct (map fst ?ws)" and w: "((gi, ci), a) \<in> set ?ws" for gi ci a
  proof -
    from spec_writes_position [OF exist w]
    have r: "gi < length arr0" "ci < length (Pins (arr0 ! gi))" by simp_all
    have "distinct (map fst (rev ?ws))" using d by (simp add: rev_map [symmetric])
    moreover have "((gi, ci), a) \<in> set (rev ?ws)" using w by simp
    ultimately have "map_of (rev ?ws) (gi, ci) = Some a" by (rule map_of_is_SomeI)
    with content [OF r] show ?thesis by simp
  qed
  have content': "\<forall>gi ci. gi < length arr0 \<longrightarrow> ci < length (Pins (arr0 ! gi)) \<longrightarrow>
      Pins (?arr ! gi) ! ci =
        (case map_of (rev ?ws) (gi, ci) of None \<Rightarrow> Pins (arr0 ! gi) ! ci | Some a \<Rightarrow> a)"
    using content by blast
  have each': "distinct (map fst ?ws) \<longrightarrow> (\<forall>((gi, ci), a) \<in> set ?ws. Pins (?arr ! gi) ! ci = a)"
    using each by auto
  show ?thesis
    by (rule exI [of _ ?arr]) (intro conjI res shape content' each')
qed


text \<open>
  C1, an instance: pins A (a DUT pin) and Clk (a system pin) on the sites 0 and 1,
  two sessions of two channels each; session \<open>n\<close> receives \<open>Site{n}/A\<close> and
  \<open>Clk\<close>.
\<close>

theorem channel_list_resolver_writes_addresses_witness:
  "\<exists>arr :: PinsCluster list.
     pin_query_context_to_channel_list [] []
       \<lparr>pqc_pins = [''A'', ''Clk''], number_of_pins_per_channel = [2, 2],
        channel_group_indices = [[0, 1], [0, 1]], channel_indices = [[0, 0], [1, 1]]\<rparr>
       \<lparr>dut_pins = [''A'', ''B''], system_pins = [''Clk''], ctx_site_numbers = [0, 1],
        get_pins_in_pin_group = (\<lambda>g. [])\<rparr>
     = Inr ([0, 1], map (\<lambda>a. join (Pins a)) arr) \<and>
     Pins (arr ! 0) ! 0 = ''Site0/A'' \<and> Pins (arr ! 0) ! 1 = ''Clk'' \<and>
     Pins (arr ! 1) ! 0 = ''Site1/A'' \<and> Pins (arr ! 1) ! 1 = ''Clk''"
proof -
  let ?pqc = "\<lparr>pqc_pins = [''A'', ''Clk''], number_of_pins_per_channel = [2, 2],
      channel_group_indices = [[0, 1], [0, 1]], channel_indices = [[0, 0], [1, 1]]\<rparr>"
  let ?ctx = "\<lparr>dut_pins = [''A'', ''B''], system_pins = [''Clk''], ctx_site_numbers = [0, 1],
      get_pins_in_pin_group = (\<lambda>g. [])\<rparr>"
  let ?arr0 = "[\<lparr>Pins = [[], []]\<rparr>, \<lparr>Pins = [[], []]\<rparr>]"
  let ?gt = "[[0, 0], [1, 1 :: int]]"
  let ?ct = "[[0, 1], [0, 1 :: int]]"
  let ?ws = "spec_writes ?arr0 (zip ?gt (zip ?ct [0, 1])) [''A'', ''Clk''] [DUT_Pin, System_Pin]"
  have sites: "[0, 1] = (if length ([] :: int list) = 0 then ctx_site_numbers ?ctx else [])"
    by simp
  have pins: "([DUT_Pin, System_Pin], [''A'', ''Clk'']) =
      (if length ([] :: ExpandedPinInformation list) = 0 then check_for_pin_group ?ctx (pqc_pins ?pqc)
       else (map Type [], map Pin []))"
    by (simp add: check_for_pin_group_def identify_pin_types_def get_all_pin_names_def)
  have gt: "numpy_transpose (channel_group_indices ?pqc) = Inr ?gt"
    by code_simp
  have ct: "numpy_transpose (channel_indices ?pqc) = Inr ?ct"
    by code_simp
  have arr0: "?arr0 = map (\<lambda>k. \<lparr>Pins = replicate (nat k) []\<rparr>) (number_of_pins_per_channel ?pqc)"
    by (simp add: numeral_2_eq_2)
  have exist: "\<forall>(gs, cs, n) \<in> set (zip ?gt (zip ?ct [0, 1])).
      \<forall>(g, c, pin, kind) \<in> set (zip gs (zip cs (zip [''A'', ''Clk''] [DUT_Pin, System_Pin]))).
        slot_position ?arr0 g c \<noteq> None"
    by (simp add: slot_position_def py_index_def)
  have ws: "?ws = [((0, 0), ''Site0/A''), ((0, 1), ''Clk''), ((1, 0), ''Site1/A''), ((1, 1), ''Clk'')]"
    by (simp add: spec_writes_def slot_position_def py_index_def spec_channel_address_def
        format_int_def)
  from channel_list_resolver_writes_addresses [OF sites pins gt ct arr0 exist]
  obtain arr :: "PinsCluster list" where res: "pin_query_context_to_channel_list [] [] ?pqc ?ctx =
      Inr ([0, 1], map (\<lambda>a. join (Pins a)) arr)"
    and content: "\<forall>gi ci. gi < length ?arr0 \<longrightarrow> ci < length (Pins (?arr0 ! gi)) \<longrightarrow>
         Pins (arr ! gi) ! ci =
           (case map_of (rev ?ws) (gi, ci) of None \<Rightarrow> Pins (?arr0 ! gi) ! ci | Some a \<Rightarrow> a)"
    by blast
  have "Pins (arr ! 0) ! 0 = ''Site0/A''" using content [rule_format, of 0 0] unfolding ws by simp
  moreover have "Pins (arr ! 0) ! 1 = ''Clk''" using content [rule_format, of 0 1] unfolding ws by simp
  moreover have "Pins (arr ! 1) ! 0 = ''Site1/A''" using content [rule_format, of 1 0] unfolding ws by simp
  moreover have "Pins (arr ! 1) ! 1 = ''Clk''" using content [rule_format, of 1 1] unfolding ws by simp
  ultimately show ?thesis using res by blast
qed

end
